theory Spec2Isabelle
  imports Main "HOL-Library.AList" "HOL-Library.Sublist"
begin

section \<open>Pseudo-crawl seed to language-model dataset\<close>

text \<open>
  A shallow embedding of \<^verbatim>\<open>cc_pseudo_crawl/pseudo_crawl_seed_to_lm_dset.py\<close>:
  schema resolution (\<^verbatim>\<open>convert_types\<close>), boilerplate line detection
  (\<^verbatim>\<open>get_lines_to_skip\<close>), page processing (\<^verbatim>\<open>filter_lines\<close>,
  \<^verbatim>\<open>process_page\<close>) and the corpus writer (\<^verbatim>\<open>make_seed_jsonl\<close>).
\<close>

subsection \<open>Python values used by the script\<close>

text \<open>
  A Python \<^verbatim>\<open>str\<close> is a \<open>string\<close>; one \<open>char\<close> stands for one code point
  below 256, so \<open>length\<close> is Python's \<^verbatim>\<open>len\<close> on such texts.
  \<^verbatim>\<open>str.strip()\<close> removes the characters for which \<^verbatim>\<open>str.isspace\<close>
  holds; below 256 these are the code points 9 to 13, 28 to 32, 133 and 160.
\<close>

datatype error =
  IndexError | KeyError | TypeError | AttributeError | ValueError | RecursionError

definition newline :: char where
  "newline = CHR 0x0A"

definition is_space :: "char \<Rightarrow> bool" where
  "is_space c \<longleftrightarrow> c \<in> set [CHR 0x09, CHR 0x0A, CHR 0x0B, CHR 0x0C, CHR 0x0D,
     CHR 0x1C, CHR 0x1D, CHR 0x1E, CHR 0x1F, CHR 0x20, CHR 0x85, CHR 0xA0]"

text \<open>\<^verbatim>\<open>s.strip()\<close>: leading and trailing whitespace removed.\<close>

definition strip :: "string \<Rightarrow> string" where
  "strip s = rev (dropWhile is_space (rev (dropWhile is_space s)))"

text \<open>A string without leading or trailing whitespace.\<close>

definition stripped :: "string \<Rightarrow> bool" where
  "stripped s \<longleftrightarrow> s = [] \<or> (\<not> is_space (hd s) \<and> \<not> is_space (last s))"

text \<open>
  \<^verbatim>\<open>s.split("\n")\<close>: the pieces between newlines; the result is never empty
  (\<^verbatim>\<open>"".split("\n") == [""]\<close>).
\<close>

fun split_nl :: "string \<Rightarrow> string list" where
  "split_nl [] = [[]]"
| "split_nl (c # cs) =
     (if c = newline then [] # split_nl cs
      else (case split_nl cs of
              [] \<Rightarrow> [[c]]
            | l # ls \<Rightarrow> (c # l) # ls))"

text \<open>\<^verbatim>\<open>"\n".join(ls)\<close>.\<close>

fun join_nl :: "string list \<Rightarrow> string" where
  "join_nl [] = []"
| "join_nl [l] = l"
| "join_nl (l # l' # ls) = l @ newline # join_nl (l' # ls)"

text \<open>
  \<^verbatim>\<open>s.lower()\<close> on code points below 256: the letters A to Z and the
  capital letters 192 to 222 (without the multiplication sign 215) move up by 32,
  which sets bit 5 of the code point.
\<close>

definition is_upper :: "char \<Rightarrow> bool" where
  "is_upper c \<longleftrightarrow>
     (let n = (of_char c :: nat)
      in (65 \<le> n \<and> n \<le> 90) \<or> (192 \<le> n \<and> n \<le> 222 \<and> n \<noteq> 215))"

definition lower_char :: "char \<Rightarrow> char" where
  "lower_char c =
     (if is_upper c
      then (case c of Char b0 b1 b2 b3 b4 b5 b6 b7 \<Rightarrow> Char b0 b1 b2 b3 b4 True b6 b7)
      else c)"

definition lower :: "string \<Rightarrow> string" where
  "lower s = map lower_char s"

text \<open>
  A Python \<^verbatim>\<open>dict\<close> is an association list with distinct keys in insertion
  order. \<^verbatim>\<open>d.get(k, default)\<close>, \<^verbatim>\<open>d[k] = v\<close>, \<^verbatim>\<open>k in d\<close> and
  \<^verbatim>\<open>len(d)\<close>:
\<close>

definition dict_get :: "('k \<times> 'v) list \<Rightarrow> 'k \<Rightarrow> 'v \<Rightarrow> 'v" where
  "dict_get d k dflt = (case map_of d k of None \<Rightarrow> dflt | Some v \<Rightarrow> v)"

definition dict_set :: "('k \<times> 'v) list \<Rightarrow> 'k \<Rightarrow> 'v \<Rightarrow> ('k \<times> 'v) list" where
  "dict_set d k v = AList.update k v d"

definition dict_in :: "'k \<Rightarrow> ('k \<times> 'v) list \<Rightarrow> bool" where
  "dict_in k d \<longleftrightarrow> map_of d k \<noteq> None"

definition dict_len :: "('k \<times> 'v) list \<Rightarrow> nat" where
  "dict_len d = length d"

subsection \<open>Page records and processed entries\<close>

text \<open>
  A page of the dataset, with the four fields the script reads (the key
  \<^verbatim>\<open>"text"\<close> is the field \<open>page_text\<close>). The dictionary built by
  \<^verbatim>\<open>get_meta_dict\<close> and the entry returned by \<^verbatim>\<open>process_page\<close>
  (keys \<^verbatim>\<open>"meta"\<close> and \<^verbatim>\<open>"text"\<close>) are records of their own.
\<close>

record page =
  url :: string
  content_languages :: string
  seed_id :: int
  page_text :: string

record meta_dict =
  meta_url :: string
  meta_content_languages :: string
  meta_seed_id :: int

record entry =
  meta :: meta_dict
  entry_text :: string

type_synonym skip_dict = "(string \<times> bool) list"

definition get_meta_dict :: "page \<Rightarrow> meta_dict" where
  "get_meta_dict p =
     \<lparr>meta_url = url p, meta_content_languages = content_languages p,
      meta_seed_id = seed_id p\<rparr>"

text \<open>
  The loop of \<^verbatim>\<open>filter_lines\<close> over the stripped lines, with its two
  accumulators \<^verbatim>\<open>keep\<close> and \<^verbatim>\<open>skip\<close>.
\<close>

fun filter_loop ::
  "skip_dict \<Rightarrow> string list \<Rightarrow> string list \<Rightarrow> string list \<Rightarrow> string list \<times> string list"
where
  "filter_loop skip_dict [] keep skip = (keep, skip)"
| "filter_loop skip_dict (line # lines) keep skip =
     (if dict_get skip_dict line False
      then filter_loop skip_dict lines keep (skip @ [line])
      else filter_loop skip_dict lines (keep @ [line]) skip)"

definition filter_lines :: "string \<Rightarrow> skip_dict \<Rightarrow> string \<times> string" where
  "filter_lines article skip_dict =
     (let lines = map strip (split_nl article);
          (keep, skip) = filter_loop skip_dict lines [] []
      in (strip (join_nl keep), strip (join_nl skip)))"

definition process_page :: "page \<Rightarrow> skip_dict \<Rightarrow> entry" where
  "process_page p skip_dict =
     (let meta = get_meta_dict p;
          (text, _) = filter_lines (page_text p) skip_dict
      in \<lparr>meta = meta, entry_text = text\<rparr>)"

subsection \<open>Boilerplate line detection\<close>

text \<open>
  Modelled from the spec: \<^verbatim>\<open>Dataset.select\<close> belongs to the
  \<^verbatim>\<open>datasets\<close> library, whose code is not part of the script. The design
  notes say of \<^verbatim>\<open>dset["train"].select(range(10000))\<close> that it assumes at
  least that many records and raises an indexing error on a smaller input; with
  enough records it yields the first \<open>n\<close> of them.
\<close>

definition select_range :: "'a list \<Rightarrow> nat \<Rightarrow> error + 'a list" where
  "select_range rows n = (if n \<le> length rows then Inr (take n rows) else Inl IndexError)"

type_synonym line_counts = "(string \<times> nat) list"
type_synonym seen_pages = "(string \<times> bool) list"

text \<open>The inner loop over \<^verbatim>\<open>article.split("\n")\<close>.\<close>

fun count_lines :: "line_counts \<Rightarrow> string list \<Rightarrow> line_counts" where
  "count_lines lc [] = lc"
| "count_lines lc (line # lines) =
     count_lines (dict_set lc (strip line) (dict_get lc (strip line) 0 + 1)) lines"

text \<open>The outer loop over the sampled pages.\<close>

fun sample_loop :: "line_counts \<Rightarrow> seen_pages \<Rightarrow> page list \<Rightarrow> line_counts \<times> seen_pages" where
  "sample_loop lc seen [] = (lc, seen)"
| "sample_loop lc seen (p # ps) =
     (let article = page_text p
      in if \<not> dict_get seen article False
         then sample_loop (count_lines lc (split_nl article)) (dict_set seen article True) ps
         else sample_loop lc seen ps)"

text \<open>
  The body of \<^verbatim>\<open>get_lines_to_skip\<close> once the sample is there: both loops from
  empty dictionaries, the threshold, and the dictionary comprehension.
\<close>

definition thres_skip :: "seen_pages \<Rightarrow> nat" where
  "thres_skip seen = max 10 (dict_len seen div 100)"

definition lines_over :: "line_counts \<Rightarrow> nat \<Rightarrow> skip_dict" where
  "lines_over lc thres = map (\<lambda>(line, ct). (line, True)) (filter (\<lambda>(line, ct). ct > thres) lc)"

definition skip_of_sample :: "page list \<Rightarrow> skip_dict" where
  "skip_of_sample dset_sample =
     (let (lc, seen) = sample_loop [] [] dset_sample
      in lines_over lc (thres_skip seen))"

definition get_lines_to_skip :: "page list \<Rightarrow> error + skip_dict" where
  "get_lines_to_skip train =
     (case select_range train 10000 of
        Inl e \<Rightarrow> Inl e
      | Inr dset_sample \<Rightarrow> Inr (skip_of_sample dset_sample))"

subsection \<open>Corpus writer\<close>

text \<open>
  The output file is the list of entries written so far, one per line
  (\<^verbatim>\<open>json.dumps(processed_dct) + "\n"\<close>). The script always writes
  \<^verbatim>\<open>bytes\<close>: the stream of \<^verbatim>\<open>gzip.open(file_name, "w")\<close> takes them,
  the text stream of \<^verbatim>\<open>open(file_name, "w", encoding="utf-8")\<close> raises
  \<^verbatim>\<open>TypeError\<close> on the first write. The dictionary \<^verbatim>\<open>duplicated\<close> is
  created empty and read in the loop; no statement of the script stores into it.
\<close>

fun write_loop ::
  "bool \<Rightarrow> skip_dict \<Rightarrow> int \<Rightarrow> (string \<times> bool) list \<Rightarrow> entry list \<Rightarrow> page list
   \<Rightarrow> error + entry list"
where
  "write_loop gzipped skip_lines_dict min_chars duplicated f [] = Inr f"
| "write_loop gzipped skip_lines_dict min_chars duplicated f (article # rest) =
     (let processed_dct = process_page article skip_lines_dict;
          txt = lower (strip (entry_text processed_dct))
      in if int (length (entry_text processed_dct)) > min_chars \<and> \<not> dict_in txt duplicated
         then (if gzipped
               then write_loop gzipped skip_lines_dict min_chars duplicated
                      (f @ [processed_dct]) rest
               else Inl TypeError)
         else write_loop gzipped skip_lines_dict min_chars duplicated f rest)"

text \<open>
  \<^verbatim>\<open>make_seed_jsonl\<close> returns the file name and the repository name; the
  model returns the content of the closed file with them.
\<close>

definition make_seed_jsonl ::
  "page list \<Rightarrow> string \<Rightarrow> string \<Rightarrow> skip_dict \<Rightarrow> int \<Rightarrow> bool
   \<Rightarrow> error + (entry list \<times> string \<times> string)"
where
  "make_seed_jsonl train language name skip_lines_dict min_chars gzipped =
     (let repo_name = ''lm_'' @ language @ ''_pseudocrawl_'' @ name;
          file_name = (if gzipped then repo_name @ ''.jsonl.gz'' else repo_name @ ''.jsonl'');
          duplicated = []
      in case write_loop gzipped skip_lines_dict min_chars duplicated [] train of
           Inl e \<Rightarrow> Inl e
         | Inr f \<Rightarrow> Inr (f, file_name, repo_name))"

subsection \<open>Schema resolution\<close>

text \<open>
  The description handed to \<^verbatim>\<open>convert_types\<close> is a JSON-like Python value;
  the result has the same shape, with a feature object of the library at each
  resolved leaf and \<^verbatim>\<open>None\<close> where no branch of the function applies.
\<close>

datatype pyval =
    PNone
  | PInt int
  | PStr string
  | PList "pyval list"
  | PDict "(string \<times> pyval) list"

datatype 'f resolved =
    RNone
  | RLeaf 'f
  | RList "'f resolved list"
  | RDict "(string \<times> 'f resolved) list"

text \<open>
  The module \<^verbatim>\<open>datasets\<close> is a parameter: \<open>datasets tag\<close> is
  \<^verbatim>\<open>getattr(datasets, tag)\<close>, \<open>None\<close> when the module has no such attribute,
  else the callable found there, which may raise on its argument.
  \<^verbatim>\<open>getattr(datasets, features["_type"])(features["dtype"])\<close> evaluates the
  callee first, then the argument, then the call.
\<close>

type_synonym 'f module = "string \<Rightarrow> (pyval \<Rightarrow> error + 'f) option"

definition resolve_leaf :: "'f module \<Rightarrow> (string \<times> pyval) list \<Rightarrow> error + 'f" where
  "resolve_leaf datasets features =
     (case map_of features ''_type'' of
        None \<Rightarrow> Inl KeyError
      | Some (PStr tag) \<Rightarrow>
          (case datasets tag of
             None \<Rightarrow> Inl AttributeError
           | Some ctor \<Rightarrow>
               (case map_of features ''dtype'' of
                  None \<Rightarrow> Inl KeyError
                | Some dtype \<Rightarrow> ctor dtype))
      | Some _ \<Rightarrow> Inl TypeError)"

text \<open>
  \<^verbatim>\<open>convert_types\<close> recurses once per level of nesting, and the interpreter
  bounds the depth of its stack: \<open>frames\<close> is the number of stack frames still
  free when the function is called. The call takes one of them, or raises
  \<^verbatim>\<open>RecursionError\<close> when none is left; the dictionary or list comprehension
  takes one more (CPython up to 3.11), and the calls for the children run with
  what remains. The frames used inside the library call of a leaf are the
  library's own and are not counted. \<open>pyval\<close> holds the finite descriptions; a
  cyclic Python object, on which the recursion uses up any number of frames, is
  not one of its values.
\<close>

fun convert_types :: "'f module \<Rightarrow> nat \<Rightarrow> pyval \<Rightarrow> error + 'f resolved"
  and convert_values :: "'f module \<Rightarrow> nat \<Rightarrow> pyval list \<Rightarrow> error + 'f resolved list"
  and convert_items ::
    "'f module \<Rightarrow> nat \<Rightarrow> (string \<times> pyval) list \<Rightarrow> error + (string \<times> 'f resolved) list"
where
  "convert_types datasets frames (PDict features) =
     (if frames = 0 then Inl RecursionError
      else if dict_in ''_type'' features
      then (case resolve_leaf datasets features of
              Inl e \<Rightarrow> Inl e
            | Inr v \<Rightarrow> Inr (RLeaf v))
      else if frames = 1 then Inl RecursionError
      else (case convert_items datasets (frames - 2) features of
              Inl e \<Rightarrow> Inl e
            | Inr kvs \<Rightarrow> Inr (RDict kvs)))"
| "convert_types datasets frames (PList features) =
     (if frames = 0 then Inl RecursionError
      else if frames = 1 then Inl RecursionError
      else (case convert_values datasets (frames - 2) features of
              Inl e \<Rightarrow> Inl e
            | Inr vs \<Rightarrow> Inr (RList vs)))"
| "convert_types datasets frames PNone =
     (if frames = 0 then Inl RecursionError else Inr RNone)"
| "convert_types datasets frames (PInt i) =
     (if frames = 0 then Inl RecursionError else Inr RNone)"
| "convert_types datasets frames (PStr s) =
     (if frames = 0 then Inl RecursionError else Inr RNone)"
| "convert_values datasets frames [] = Inr []"
| "convert_values datasets frames (child # rest) =
     (case convert_types datasets frames child of
        Inl e \<Rightarrow> Inl e
      | Inr v \<Rightarrow>
          (case convert_values datasets frames rest of
             Inl e \<Rightarrow> Inl e
           | Inr vs \<Rightarrow> Inr (v # vs)))"
| "convert_items datasets frames [] = Inr []"
| "convert_items datasets frames ((key, child) # rest) =
     (case convert_types datasets frames child of
        Inl e \<Rightarrow> Inl e
      | Inr v \<Rightarrow>
          (case convert_items datasets frames rest of
             Inl e \<Rightarrow> Inl e
           | Inr kvs \<Rightarrow> Inr ((key, v) # kvs)))"




text \<open>Lists nested \<open>n\<close> deep around an empty list.\<close>

fun nest :: "nat \<Rightarrow> pyval" where
  "nest 0 = PList []"
| "nest (Suc n) = PList [nest n]"

subsection \<open>Concrete inputs for evaluation\<close>

definition example_skip :: skip_dict where
  "example_skip = [(''Home'', True), (''Contact'', False)]"

definition example_page :: page where
  "example_page =
     \<lparr>url = ''http://a.org/1'', content_languages = ''en'', seed_id = 7,
      page_text = ''Home'' @ [newline] @ ''  Hello World '' @ [newline, newline]
        @ ''Contact'' @ [newline] @ ''Home ''\<rparr>"

definition menu_page :: "char \<Rightarrow> page" where
  "menu_page c =
     \<lparr>url = ''http://a.org/'' @ [c], content_languages = ''en'', seed_id = 7,
      page_text = ''Menu'' @ [newline, c]\<rparr>"

definition menu_sample :: "page list" where
  "menu_sample = map menu_page ''abcdefghijkl''"

definition big_sample :: "page list" where
  "big_sample = menu_sample @ replicate 9988 (menu_page (CHR ''a''))"

text \<open>
  Three pages for the writer: the texts of \<open>page_a\<close> and \<open>page_b\<close> differ in
  case only, that of \<open>page_short\<close> has three characters.
\<close>

definition page_a :: page where
  "page_a = \<lparr>url = ''http://a.org/a'', content_languages = ''en'', seed_id = 7,
             page_text = ''Hello World''\<rparr>"

definition page_b :: page where
  "page_b = \<lparr>url = ''http://a.org/b'', content_languages = ''en'', seed_id = 7,
             page_text = '' hello world ''\<rparr>"

definition page_short :: page where
  "page_short = \<lparr>url = ''http://a.org/c'', content_languages = ''en'', seed_id = 7,
                 page_text = ''abc''\<rparr>"

definition entry_of :: "string \<Rightarrow> string \<Rightarrow> entry" where
  "entry_of u t =
     \<lparr>meta = \<lparr>meta_url = u, meta_content_languages = ''en'', meta_seed_id = 7\<rparr>,
      entry_text = t\<rparr>"

section \<open>Strings: stripping, splitting and joining\<close>

lemma is_space_newline: "is_space newline"
  by (simp add: is_space_def newline_def)

lemma last_dropWhile: "dropWhile P xs \<noteq> [] \<Longrightarrow> last (dropWhile P xs) = last xs"
  by (induction xs) (auto split: if_splits)

lemma strip_Nil: "strip [] = []"
  by (simp add: strip_def)

lemma stripped_strip: "stripped (strip s)"
proof (cases "strip s = []")
  case True
  then show ?thesis by (simp add: stripped_def)
next
  case False
  define t where "t = dropWhile is_space s"
  define u where "u = dropWhile is_space (rev t)"
  have s: "strip s = rev u" by (simp add: strip_def t_def u_def)
  with False have u: "u \<noteq> []" by simp
  then have t: "t \<noteq> []" by (auto simp: u_def)
  have "\<not> is_space (hd u)" using u unfolding u_def by (rule hd_dropWhile)
  moreover have "last u = last (rev t)" using u unfolding u_def by (rule last_dropWhile)
  moreover have "\<not> is_space (hd t)" using t unfolding t_def by (rule hd_dropWhile)
  ultimately show ?thesis using u t
    by (simp add: stripped_def s hd_rev last_rev)
qed

lemma strip_stripped: "stripped s \<Longrightarrow> strip s = s"
proof (cases "s = []")
  case True
  then show ?thesis by (simp add: strip_def)
next
  case False
  assume "stripped s"
  with False have h: "\<not> is_space (hd s)" and l: "\<not> is_space (last s)"
    by (simp_all add: stripped_def)
  have 1: "dropWhile is_space s = s"
    using h by (simp add: dropWhile_eq_self_iff)
  have 2: "dropWhile is_space (rev s) = rev s"
    using l False by (simp add: dropWhile_eq_self_iff hd_rev)
  show ?thesis by (simp add: strip_def 1 2)
qed

lemma strip_idem: "strip (strip s) = strip s"
  by (rule strip_stripped) (rule stripped_strip)

lemma set_strip: "set (strip s) \<subseteq> set s"
proof
  fix x assume "x \<in> set (strip s)"
  then have "x \<in> set (dropWhile is_space (rev (dropWhile is_space s)))"
    by (simp add: strip_def)
  then have "x \<in> set (rev (dropWhile is_space s))" by (rule set_dropWhileD)
  then have "x \<in> set (dropWhile is_space s)" by simp
  then show "x \<in> set s" by (rule set_dropWhileD)
qed

lemma stripped_rev: "stripped (rev l) = stripped l"
  by (cases "l = []") (auto simp: stripped_def hd_rev last_rev)

lemma split_nl_nonempty: "split_nl s \<noteq> []"
  by (induction s) (auto split: list.splits)

lemma split_nl_no_newline: "l \<in> set (split_nl s) \<Longrightarrow> newline \<notin> set l"
  by (induction s arbitrary: l) (auto split: if_splits list.splits)

lemma split_nl_append:
  "newline \<notin> set l \<Longrightarrow> split_nl (l @ newline # s) = l # split_nl s"
  by (induction l) (auto split: list.splits)

lemma split_nl_line: "newline \<notin> set l \<Longrightarrow> split_nl l = [l]"
  by (induction l) (auto split: list.splits)

lemma split_join:
  "ls \<noteq> [] \<Longrightarrow> \<forall>l \<in> set ls. newline \<notin> set l \<Longrightarrow> split_nl (join_nl ls) = ls"
  by (induction ls rule: join_nl.induct) (simp_all add: split_nl_line split_nl_append)

lemma join_nl_snoc:
  "join_nl (ls @ [l]) = (if ls = [] then l else join_nl ls @ newline # l)"
  by (induction ls rule: join_nl.induct) simp_all

lemma join_nl_Cons:
  "join_nl (l # ls) = (if ls = [] then l else l @ newline # join_nl ls)"
  by (cases ls) simp_all

lemma rev_join: "rev (join_nl ls) = join_nl (map rev (rev ls))"
proof (induction ls)
  case Nil
  then show ?case by simp
next
  case (Cons l ls)
  then show ?case by (simp add: join_nl_Cons join_nl_snoc del: join_nl.simps)
qed

text \<open>
  Stripping a text whose lines are stripped removes whole lines only: the empty
  lines at its start.
\<close>

lemma dropWhile_join:
  "\<forall>l \<in> set ls. stripped l \<Longrightarrow>
   dropWhile is_space (join_nl ls) = join_nl (dropWhile (\<lambda>l. l = []) ls)"
proof (induction ls rule: join_nl.induct)
  case 1
  then show ?case by simp
next
  case (2 l)
  then show ?case by (cases "l = []") (simp_all add: stripped_def dropWhile_eq_self_iff)
next
  case (3 l l' ls)
  show ?case
  proof (cases "l = []")
    case True
    with 3 show ?thesis by (simp add: is_space_newline)
  next
    case False
    with 3 have "\<not> is_space (hd l)" by (simp add: stripped_def)
    with False show ?thesis by (cases l) simp_all
  qed
qed

text \<open>And the empty lines at both ends, for \<^verbatim>\<open>strip\<close> itself.\<close>

lemma strip_join:
  assumes "\<forall>l \<in> set ls. stripped l"
  shows "strip (join_nl ls) =
         join_nl (rev (dropWhile (\<lambda>l. l = []) (rev (dropWhile (\<lambda>l. l = []) ls))))"
proof -
  define ks where "ks = dropWhile (\<lambda>l. l = []) ls"
  have ks: "\<forall>l \<in> set ks. stripped l"
    using assms set_dropWhileD unfolding ks_def by fast
  then have rks: "\<forall>l \<in> set (map rev (rev ks)). stripped l"
    by (simp add: stripped_rev)
  have "strip (join_nl ls) = rev (dropWhile is_space (rev (join_nl ks)))"
    by (simp add: strip_def dropWhile_join [OF assms] ks_def)
  also have "\<dots> = rev (join_nl (dropWhile (\<lambda>l. l = []) (map rev (rev ks))))"
    by (simp only: rev_join dropWhile_join [OF rks])
  also have "\<dots> = join_nl (rev (dropWhile (\<lambda>l. l = []) (rev ks)))"
    by (simp add: rev_join dropWhile_map comp_def rev_map)
  finally show ?thesis by (simp add: ks_def)
qed

section \<open>Page processor\<close>

lemma dict_get_flag: "dict_get sd l False \<longleftrightarrow> map_of sd l = Some True"
  by (auto simp: dict_get_def split: option.splits)

lemma filter_loop_eq:
  "filter_loop sd ls keep skip =
     (keep @ filter (\<lambda>l. \<not> dict_get sd l False) ls,
      skip @ filter (\<lambda>l. dict_get sd l False) ls)"
  by (induction ls arbitrary: keep skip) simp_all

lemma filter_lines_eq:
  "filter_lines article sd =
     (strip (join_nl (filter (\<lambda>l. \<not> dict_get sd l False) (map strip (split_nl article)))),
      strip (join_nl (filter (\<lambda>l. dict_get sd l False) (map strip (split_nl article)))))"
  by (simp add: filter_lines_def filter_loop_eq Let_def)

lemma entry_text_process_page:
  "entry_text (process_page p sd) = fst (filter_lines (page_text p) sd)"
  by (simp add: process_page_def Let_def split: prod.splits)

text \<open>
  Claim C6. The entry returned by \<^verbatim>\<open>process_page\<close> has as text the lines of
  the page text, split at newlines and stripped, without the lines that the skip
  dictionary maps to \<^verbatim>\<open>True\<close>, in their order, joined by newlines and stripped;
  its meta dictionary holds the url, the content languages and the seed id of
  the page.
\<close>

theorem process_page_spec:
  "entry_text (process_page p sd) =
     strip (join_nl (filter (\<lambda>l. map_of sd l \<noteq> Some True)
                            (map strip (split_nl (page_text p)))))
   \<and> meta (process_page p sd) =
     \<lparr>meta_url = url p, meta_content_languages = content_languages p,
      meta_seed_id = seed_id p\<rparr>"
  by (simp add: process_page_def filter_lines_eq get_meta_dict_def dict_get_flag)

theorem process_page_spec_witness:
  "entry_text (process_page example_page example_skip)
     = ''Hello World'' @ [CHR 0x0A, CHR 0x0A] @ ''Contact''
   \<and> meta (process_page example_page example_skip) =
     \<lparr>meta_url = ''http://a.org/1'', meta_content_languages = ''en'', meta_seed_id = 7\<rparr>"
  using process_page_spec [of example_page example_skip]
  by (simp add: example_page_def example_skip_def strip_def is_space_def newline_def)

text \<open>
  Claim C9. The text of the entry returned by \<^verbatim>\<open>process_page\<close> has no
  leading and no trailing whitespace, so stripping it again changes nothing, and
  the length compared with \<^verbatim>\<open>min_chars\<close> is the length of the stripped text.
\<close>

theorem process_page_stripped:
  "stripped (entry_text (process_page p sd))
   \<and> strip (entry_text (process_page p sd)) = entry_text (process_page p sd)
   \<and> (min_chars < int (length (entry_text (process_page p sd)))
        \<longleftrightarrow> min_chars < int (length (strip (entry_text (process_page p sd)))))"
  by (simp add: entry_text_process_page filter_lines_eq stripped_strip strip_idem)

theorem process_page_stripped_witness:
  "entry_text (process_page example_page example_skip) \<noteq> []
   \<and> \<not> is_space (hd (entry_text (process_page example_page example_skip)))
   \<and> \<not> is_space (last (entry_text (process_page example_page example_skip)))
   \<and> length (strip (entry_text (process_page example_page example_skip))) = 20"
proof -
  have t: "entry_text (process_page example_page example_skip)
             = ''Hello World'' @ [CHR 0x0A, CHR 0x0A] @ ''Contact''"
    by (simp add: process_page_def filter_lines_eq example_page_def example_skip_def
        dict_get_def strip_def is_space_def newline_def)
  show ?thesis
    using process_page_stripped [of example_page example_skip 0]
    by (simp add: stripped_def t)
qed

text \<open>
  Claim C10. Filtering is idempotent on the kept text: \<^verbatim>\<open>filter_lines\<close>
  applied to the kept text of a first pass returns that text as its kept text,
  and an empty skipped text.
\<close>

theorem filter_lines_idempotent:
  "fst (filter_lines (fst (filter_lines article sd)) sd) = fst (filter_lines article sd)
   \<and> snd (filter_lines (fst (filter_lines article sd)) sd) = []"
proof -
  define keep where
    "keep = filter (\<lambda>l. \<not> dict_get sd l False) (map strip (split_nl article))"
  define inner where
    "inner = rev (dropWhile (\<lambda>l. l = []) (rev (dropWhile (\<lambda>l. l = []) keep)))"
  have sub: "set inner \<subseteq> set keep"
  proof
    fix l assume "l \<in> set inner"
    then have "l \<in> set (dropWhile (\<lambda>l. l = []) (rev (dropWhile (\<lambda>l. l = []) keep)))"
      by (simp add: inner_def)
    then have "l \<in> set (rev (dropWhile (\<lambda>l. l = []) keep))" by (rule set_dropWhileD)
    then have "l \<in> set (dropWhile (\<lambda>l. l = []) keep)" by simp
    then show "l \<in> set keep" by (rule set_dropWhileD)
  qed
  have keep_stripped: "\<forall>l \<in> set keep. stripped l"
    by (auto simp: keep_def stripped_strip)
  have keep_nl: "\<forall>l \<in> set keep. newline \<notin> set l"
    using split_nl_no_newline set_strip by (fastforce simp: keep_def)
  have keep_unflagged: "\<forall>l \<in> set keep. \<not> dict_get sd l False"
    by (simp add: keep_def)
  have kept: "fst (filter_lines article sd) = join_nl inner"
    by (simp add: filter_lines_eq keep_def [symmetric] strip_join [OF keep_stripped] inner_def)
  have again: "filter_lines (join_nl inner) sd = (join_nl inner, [])"
  proof (cases "inner = []")
    case True
    then show ?thesis by (simp add: filter_lines_eq strip_Nil)
  next
    case False
    have "split_nl (join_nl inner) = inner"
      using False keep_nl sub by (intro split_join) auto
    moreover have "map strip inner = inner"
      using keep_stripped sub by (intro map_idI strip_stripped) auto
    moreover have "filter (\<lambda>l. \<not> dict_get sd l False) inner = inner"
      using keep_unflagged sub by (intro filter_True) auto
    moreover have "filter (\<lambda>l. dict_get sd l False) inner = []"
      using keep_unflagged sub by (intro filter_False) auto
    moreover have "strip (join_nl inner) = join_nl inner"
      using kept [symmetric] by (simp add: filter_lines_eq strip_idem)
    ultimately show ?thesis by (simp add: filter_lines_eq strip_Nil)
  qed
  show ?thesis by (simp add: kept again)
qed

theorem filter_lines_idempotent_witness:
  "fst (filter_lines (page_text example_page) example_skip)
     = ''Hello World'' @ [CHR 0x0A, CHR 0x0A] @ ''Contact''
   \<and> fst (filter_lines (''Hello World'' @ [CHR 0x0A, CHR 0x0A] @ ''Contact'') example_skip)
     = ''Hello World'' @ [CHR 0x0A, CHR 0x0A] @ ''Contact''"
proof -
  have t: "fst (filter_lines (page_text example_page) example_skip)
             = ''Hello World'' @ [CHR 0x0A, CHR 0x0A] @ ''Contact''"
    by (simp add: filter_lines_eq example_page_def example_skip_def
        dict_get_def strip_def is_space_def newline_def)
  show ?thesis
    using filter_lines_idempotent [of "page_text example_page" example_skip]
    by (simp add: t)
qed

section \<open>Boilerplate line detector\<close>

lemma dict_get_set:
  "dict_get (dict_set d k v) k' dflt = (if k' = k then v else dict_get d k' dflt)"
  by (simp add: dict_get_def dict_set_def update_conv')

lemma distinct_dict_set: "distinct (map fst d) \<Longrightarrow> distinct (map fst (dict_set d k v))"
  by (simp add: dict_set_def distinct_update)

lemma keys_dict_set: "fst ` set (dict_set d k v) = insert k (fst ` set d)"
  by (simp add: dict_set_def dom_update)

lemma count_lines_get:
  "dict_get (count_lines lc ls) l 0 = dict_get lc l 0 + count_list (map strip ls) l"
  by (induction ls arbitrary: lc) (simp_all add: dict_get_set)

lemma count_lines_distinct:
  "distinct (map fst lc) \<Longrightarrow> distinct (map fst (count_lines lc ls))"
  by (induction ls arbitrary: lc) (simp_all add: distinct_dict_set)

lemma set_dict_set: "set (dict_set d k v) \<subseteq> insert (k, v) (set d)"
  unfolding dict_set_def by (induction d) auto

lemma seen_get:
  "\<forall>kv \<in> set seen. snd kv \<Longrightarrow> dict_get seen t False \<longleftrightarrow> t \<in> fst ` set seen"
proof (cases "map_of seen t")
  case None
  then have "t \<notin> fst ` set seen" by (simp add: map_of_eq_None_iff)
  with None show ?thesis by (simp add: dict_get_def)
next
  case (Some v)
  assume a: "\<forall>kv \<in> set seen. snd kv"
  from Some have m: "(t, v) \<in> set seen" by (rule map_of_SomeD)
  with a have v by auto
  moreover from m have "t \<in> fst ` set seen" by force
  ultimately show ?thesis using Some by (simp add: dict_get_def)
qed

lemma seen_set: "\<forall>kv \<in> set seen. snd kv \<Longrightarrow> \<forall>kv \<in> set (dict_set seen t True). snd kv"
  using set_dict_set [of seen t True] by auto

lemma sample_loop_counts:
  "\<forall>kv \<in> set seen. snd kv \<Longrightarrow>
   dict_get (fst (sample_loop lc seen ps)) l 0 =
     dict_get lc l 0 +
     (\<Sum>t \<in> page_text ` set ps - fst ` set seen. count_list (map strip (split_nl t)) l)"
proof (induction ps arbitrary: lc seen)
  case Nil
  then show ?case by simp
next
  case (Cons p ps)
  let ?t = "page_text p"
  let ?g = "\<lambda>t. count_list (map strip (split_nl t)) l"
  show ?case
  proof (cases "?t \<in> fst ` set seen")
    case True
    then have "page_text ` set (p # ps) - fst ` set seen = page_text ` set ps - fst ` set seen"
      by auto
    moreover have "sample_loop lc seen (p # ps) = sample_loop lc seen ps"
      using True Cons.prems by (simp add: seen_get)
    ultimately show ?thesis using Cons.IH [OF Cons.prems] by simp
  next
    case False
    let ?A = "page_text ` set ps - fst ` set seen"
    let ?seen' = "dict_set seen ?t True"
    let ?lc' = "count_lines lc (split_nl ?t)"
    have step: "sample_loop lc seen (p # ps) = sample_loop ?lc' ?seen' ps"
      using False Cons.prems by (simp add: seen_get Let_def)
    have 1: "page_text ` set (p # ps) - fst ` set seen = insert ?t ?A"
      using False by auto
    have 2: "page_text ` set ps - fst ` set ?seen' = ?A - {?t}"
      by (auto simp: keys_dict_set)
    have 3: "sum ?g (insert ?t ?A) = ?g ?t + sum ?g (?A - {?t})"
      by (rule sum.insert_remove) simp
    have "dict_get (fst (sample_loop ?lc' ?seen' ps)) l 0 =
            dict_get ?lc' l 0 + sum ?g (?A - {?t})"
      using Cons.IH [OF seen_set [OF Cons.prems], of ?lc' ?t] by (simp only: 2)
    then show ?thesis
      by (simp only: step 1 3 count_lines_get add.assoc)
  qed
qed

lemma sample_loop_seen:
  "\<forall>kv \<in> set seen. snd kv \<Longrightarrow> distinct (map fst seen) \<Longrightarrow>
   distinct (map fst (snd (sample_loop lc seen ps))) \<and>
   fst ` set (snd (sample_loop lc seen ps)) = fst ` set seen \<union> page_text ` set ps"
proof (induction ps arbitrary: lc seen)
  case Nil
  then show ?case by simp
next
  case (Cons p ps)
  show ?case
  proof (cases "page_text p \<in> fst ` set seen")
    case True
    with Cons show ?thesis by (auto simp: seen_get)
  next
    case False
    let ?seen' = "dict_set seen (page_text p) True"
    have "sample_loop lc seen (p # ps)
            = sample_loop (count_lines lc (split_nl (page_text p))) ?seen' ps"
      using False Cons.prems by (simp add: seen_get Let_def)
    moreover note Cons.IH [OF seen_set [OF Cons.prems(1)] distinct_dict_set [OF Cons.prems(2)]]
    ultimately show ?thesis by (auto simp: keys_dict_set)
  qed
qed

lemma sample_loop_vals:
  "\<forall>kv \<in> set seen. snd kv \<Longrightarrow> \<forall>kv \<in> set (snd (sample_loop lc seen ps)). snd kv"
proof (induction ps arbitrary: lc seen)
  case Nil
  then show ?case by simp
next
  case (Cons p ps)
  show ?case
    using Cons.IH [OF Cons.prems] Cons.IH [OF seen_set [OF Cons.prems]]
    by (simp add: Let_def)
qed

lemma sample_loop_distinct:
  "distinct (map fst lc) \<Longrightarrow> distinct (map fst (fst (sample_loop lc seen ps)))"
  by (induction ps arbitrary: lc seen) (simp_all add: count_lines_distinct Let_def)

lemma sample_loop_append:
  "sample_loop lc seen (xs @ ys) =
     (case sample_loop lc seen xs of (lc', seen') \<Rightarrow> sample_loop lc' seen' ys)"
  by (induction xs arbitrary: lc seen) (simp_all add: Let_def)

lemma unique_count:
  "dict_len (snd (sample_loop [] [] sample)) = card (page_text ` set sample)"
proof -
  let ?seen = "snd (sample_loop [] [] sample)"
  from sample_loop_seen [of "[]" "[]" sample]
  have d: "distinct (map fst ?seen)" and k: "fst ` set ?seen = page_text ` set sample"
    by simp_all
  have "card (page_text ` set sample) = card (set (map fst ?seen))" by (simp add: k)
  also have "\<dots> = length (map fst ?seen)" using d by (rule distinct_card)
  finally show ?thesis by (simp add: dict_len_def)
qed

lemma map_of_lines_over:
  "distinct (map fst lc) \<Longrightarrow>
   map_of (lines_over lc thres) l = (if thres < dict_get lc l 0 then Some True else None)"
proof (induction lc)
  case Nil
  then show ?case by (simp add: lines_over_def dict_get_def)
next
  case (Cons kv lc)
  obtain k c where kv: "kv = (k, c)" by (cases kv)
  from Cons.prems kv have "k \<notin> fst ` set lc" by simp
  then have none: "map_of lc k = None" by (simp add: map_of_eq_None_iff)
  then have "dict_get lc k 0 = 0" by (simp add: dict_get_def)
  with Cons kv show ?case
    by (auto simp: lines_over_def dict_get_def)
qed


lemma get_lines_to_skip_enough:
  "10000 \<le> length train \<Longrightarrow>
   get_lines_to_skip train = Inr (skip_of_sample (take 10000 train))"
  by (simp add: get_lines_to_skip_def select_range_def)

lemma get_lines_to_skip_short:
  "length train < 10000 \<Longrightarrow> get_lines_to_skip train = Inl IndexError"
  by (simp add: get_lines_to_skip_def select_range_def)

text \<open>
  Claim C2. \<^verbatim>\<open>get_lines_to_skip\<close> is to sample the first
  \<open>min(10000, number of records)\<close> records and return a skip dictionary without
  raising. The script selects \<^verbatim>\<open>range(10000)\<close> whatever the size of the
  dataset: on 500 records the selection raises and no skip dictionary is returned.
\<close>

theorem get_lines_to_skip_500: "get_lines_to_skip (replicate 500 example_page) = Inl IndexError"
  by (simp add: get_lines_to_skip_def select_range_def)

lemma sample_loop_seen_again:
  assumes "page_text p \<in> page_text ` set sample"
  shows "sample_loop [] [] (sample @ [p]) = sample_loop [] [] sample"
proof -
  obtain lc seen where r: "sample_loop [] [] sample = (lc, seen)"
    by (cases "sample_loop [] [] sample")
  from sample_loop_seen [of "[]" "[]" sample]
  have k: "fst ` set seen = page_text ` set sample" by (simp add: r)
  have v: "\<forall>kv \<in> set seen. snd kv"
    using sample_loop_vals [of "[]" "[]" sample] by (simp add: r)
  show ?thesis using assms by (simp add: sample_loop_append r seen_get [OF v] k)
qed

lemma sample_loop_replicate:
  "page_text p \<in> page_text ` set sample \<Longrightarrow>
   sample_loop [] [] (sample @ replicate n p) = sample_loop [] [] sample"
proof (induction n)
  case 0
  then show ?case by simp
next
  case (Suc n)
  have "sample @ replicate (Suc n) p = (sample @ replicate n p) @ [p]"
    by (simp add: replicate_append_same)
  moreover have "page_text p \<in> page_text ` set (sample @ replicate n p)"
    using Suc.prems by auto
  ultimately show ?case
    using Suc by (simp only: sample_loop_seen_again)
qed

lemma skip_of_sample_map_of:
  "map_of (skip_of_sample sample) line =
     (if max 10 (card (page_text ` set sample) div 100)
           < dict_get (fst (sample_loop [] [] sample)) line 0
      then Some True else None)"
proof -
  obtain lc seen where r: "sample_loop [] [] sample = (lc, seen)"
    by (cases "sample_loop [] [] sample")
  have d: "distinct (map fst lc)"
    using sample_loop_distinct [of "[]" "[]" sample] by (simp add: r)
  have u: "dict_len seen = card (page_text ` set sample)"
    using unique_count [of sample] by (simp add: r)
  show ?thesis
    by (simp add: skip_of_sample_def r map_of_lines_over [OF d] thres_skip_def u)
qed

text \<open>
  Claim C4. Whenever \<^verbatim>\<open>get_lines_to_skip\<close> returns, with the first 10000
  records as its sample, the skip dictionary maps a line to \<^verbatim>\<open>True\<close> if and
  only if the count of the line in the frequency table exceeds
  \<open>max 10 (unique_count div 100)\<close>, where \<open>unique_count\<close> is the number of distinct
  page texts of the sample; every other line is absent (the count of a line that
  is not in the table reads as 0).
\<close>

theorem get_lines_to_skip_threshold:
  assumes "get_lines_to_skip train = Inr sd"
  shows "map_of sd line =
     (if max 10 (card (page_text ` set (take 10000 train)) div 100)
           < dict_get (fst (sample_loop [] [] (take 10000 train))) line 0
      then Some True else None)"
proof (cases "10000 \<le> length train")
  case True
  then have "get_lines_to_skip train = Inr (skip_of_sample (take 10000 train))"
    by (rule get_lines_to_skip_enough)
  with assms have "sd = skip_of_sample (take 10000 train)" by simp
  then show ?thesis by (simp only: skip_of_sample_map_of)
next
  case False
  then have "get_lines_to_skip train = Inl IndexError"
    by (simp add: get_lines_to_skip_short)
  with assms show ?thesis by simp
qed

lemma menu_eval:
  "sample_loop [] [] menu_sample =
     ([(''Menu'', 12), (''a'', 1), (''b'', 1), (''c'', 1), (''d'', 1), (''e'', 1), (''f'', 1),
       (''g'', 1), (''h'', 1), (''i'', 1), (''j'', 1), (''k'', 1), (''l'', 1)],
      map (\<lambda>c. (''Menu'' @ [newline, c], True)) ''abcdefghijkl'')"
  by (simp add: menu_sample_def menu_page_def dict_get_def dict_set_def strip_def
      is_space_def newline_def)

theorem get_lines_to_skip_threshold_witness:
  "get_lines_to_skip big_sample = Inr (skip_of_sample big_sample)
   \<and> map_of (skip_of_sample big_sample) ''Menu'' = Some True
   \<and> map_of (skip_of_sample big_sample) ''a'' = None"
proof -
  have len: "length big_sample = 10000"
    by (simp add: big_sample_def menu_sample_def)
  have r: "get_lines_to_skip big_sample = Inr (skip_of_sample big_sample)"
    using get_lines_to_skip_enough [of big_sample] by (simp add: len)
  have "page_text (menu_page (CHR ''a'')) \<in> page_text ` set menu_sample"
    by (simp add: menu_sample_def)
  then have loop: "sample_loop [] [] big_sample = sample_loop [] [] menu_sample"
    unfolding big_sample_def by (rule sample_loop_replicate)
  have "set big_sample = set menu_sample"
    by (auto simp: big_sample_def menu_sample_def)
  then have c: "card (page_text ` set big_sample) = 12"
    by (simp add: menu_sample_def menu_page_def)
  show ?thesis
    using get_lines_to_skip_threshold [OF r, of "''Menu''"]
      get_lines_to_skip_threshold [OF r, of "''a''"]
    by (simp add: r len loop c menu_eval dict_get_def)
qed

text \<open>
  Claim C5. The count of a stripped line in the frequency table is the number of
  its occurrences summed over the distinct page texts of the sample; a page whose
  text equals that of an earlier page of the sample changes neither dictionary,
  and \<open>n\<close> copies of one page count each of its lines as one copy does.
\<close>

theorem sample_loop_distinct_pages:
  "dict_get (fst (sample_loop [] [] sample)) line 0 =
     (\<Sum>t \<in> page_text ` set sample. count_list (map strip (split_nl t)) line)
   \<and> (page_text p \<in> page_text ` set sample \<longrightarrow>
        sample_loop [] [] (sample @ [p]) = sample_loop [] [] sample)
   \<and> (0 < n \<longrightarrow>
        dict_get (fst (sample_loop [] [] (replicate n p))) line 0 =
          count_list (map strip (split_nl (page_text p))) line)"
proof (intro conjI impI)
  show a: "dict_get (fst (sample_loop [] [] sample)) line 0 =
     (\<Sum>t \<in> page_text ` set sample. count_list (map strip (split_nl t)) line)" for sample
    using sample_loop_counts [of "[]" "[]" sample line] by (simp add: dict_get_def)
  show "sample_loop [] [] (sample @ [p]) = sample_loop [] [] sample"
    if "page_text p \<in> page_text ` set sample"
    using that by (rule sample_loop_seen_again)
  show "dict_get (fst (sample_loop [] [] (replicate n p))) line 0 =
          count_list (map strip (split_nl (page_text p))) line" if "0 < n"
    using that by (simp add: a)
qed

theorem sample_loop_distinct_pages_witness:
  "dict_get (fst (sample_loop [] [] [example_page, example_page])) ''Home'' 0 = 2
   \<and> sample_loop [] [] ([example_page] @ [example_page]) = sample_loop [] [] [example_page]
   \<and> dict_get (fst (sample_loop [] [] (replicate 3 example_page))) ''Home'' 0 = 2"
  using sample_loop_distinct_pages [of "[example_page, example_page]" "''Home''" example_page 3]
    sample_loop_distinct_pages [of "[example_page]" "''Home''" example_page 3]
  by (simp add: example_page_def strip_def is_space_def newline_def)

section \<open>Corpus writer\<close>

lemma write_loop_gzipped:
  "write_loop True sd mc [] f ps =
     Inr (f @ filter (\<lambda>e. mc < int (length (entry_text e))) (map (\<lambda>p. process_page p sd) ps))"
  by (induction ps arbitrary: f) (simp_all add: Let_def dict_in_def)

lemma write_loop_text_mode:
  "write_loop False sd mc [] f ps =
     (if \<exists>p \<in> set ps. mc < int (length (entry_text (process_page p sd)))
      then Inl TypeError else Inr f)"
  by (induction ps arbitrary: f) (simp_all add: Let_def dict_in_def)

lemma write_loop_Inr:
  assumes "write_loop gz sd mc [] f ps = Inr out"
  shows "out = f @ filter (\<lambda>e. mc < int (length (entry_text e)))
                      (map (\<lambda>p. process_page p sd) ps)"
proof (cases gz)
  case True
  with assms show ?thesis by (simp add: write_loop_gzipped)
next
  case False
  with assms have "out = f"
    and "\<forall>p \<in> set ps. \<not> mc < int (length (entry_text (process_page p sd)))"
    by (auto simp: write_loop_text_mode split: if_splits)
  then show ?thesis by (simp add: filter_empty_conv)
qed

lemma make_seed_jsonl_Inr:
  "make_seed_jsonl train language name sd mc gz = Inr (out, file_name, repo_name) \<Longrightarrow>
   out = filter (\<lambda>e. mc < int (length (entry_text e))) (map (\<lambda>p. process_page p sd) train)"
  by (auto simp: make_seed_jsonl_def Let_def split: sum.splits dest: write_loop_Inr)

lemma make_seed_jsonl_gzipped:
  "make_seed_jsonl train language name sd mc True =
     Inr (filter (\<lambda>e. mc < int (length (entry_text e))) (map (\<lambda>p. process_page p sd) train),
          ''lm_'' @ language @ ''_pseudocrawl_'' @ name @ ''.jsonl.gz'',
          ''lm_'' @ language @ ''_pseudocrawl_'' @ name)"
  by (simp add: make_seed_jsonl_def write_loop_gzipped)

lemma make_seed_jsonl_subseq:
  "make_seed_jsonl train language name sd mc gz = Inr (out, file_name, repo_name) \<Longrightarrow>
   subseq out (map (\<lambda>p. process_page p sd) train)"
  by (auto dest: make_seed_jsonl_Inr)

text \<open>
  Claim C7. Every entry written by \<^verbatim>\<open>make_seed_jsonl\<close> has a text longer
  than \<^verbatim>\<open>min_chars\<close>, the length being that of the processed text itself
  and not of its lower-cased form; a page whose processed text has at most
  \<^verbatim>\<open>min_chars\<close> characters is never written.
\<close>

theorem make_seed_jsonl_min_chars:
  assumes "make_seed_jsonl train language name sd min_chars gz = Inr (out, file_name, repo_name)"
  shows "(\<forall>e \<in> set out. min_chars < int (length (entry_text e)))
       \<and> (\<forall>p \<in> set train. int (length (entry_text (process_page p sd))) \<le> min_chars
            \<longrightarrow> process_page p sd \<notin> set out)"
  using make_seed_jsonl_Inr [OF assms] by auto

lemmas writer_eval = process_page_def get_meta_dict_def filter_lines_def
  strip_def is_space_def newline_def dict_get_def Let_def entry_of_def

lemma process_a: "process_page page_a [] = entry_of ''http://a.org/a'' ''Hello World''"
  by (simp add: page_a_def writer_eval)
lemma process_b: "process_page page_b [] = entry_of ''http://a.org/b'' ''hello world''"
  by (simp add: page_b_def writer_eval)
lemma process_short: "process_page page_short [] = entry_of ''http://a.org/c'' ''abc''"
  by (simp add: page_short_def writer_eval)

theorem make_seed_jsonl_min_chars_witness:
  "make_seed_jsonl [page_a, page_short] ''en'' ''site'' [] 3 True =
     Inr ([entry_of ''http://a.org/a'' ''Hello World''],
          ''lm_en_pseudocrawl_site.jsonl.gz'', ''lm_en_pseudocrawl_site'')
   \<and> 3 < int (length (entry_text (entry_of ''http://a.org/a'' ''Hello World'')))
   \<and> process_page page_short [] \<noteq> entry_of ''http://a.org/a'' ''Hello World''"
proof -
  have r: "make_seed_jsonl [page_a, page_short] ''en'' ''site'' [] 3 True =
     Inr ([entry_of ''http://a.org/a'' ''Hello World''],
          ''lm_en_pseudocrawl_site.jsonl.gz'', ''lm_en_pseudocrawl_site'')"
    by (simp add: make_seed_jsonl_gzipped process_a process_short) (simp add: entry_of_def)
  show ?thesis
    using make_seed_jsonl_min_chars [OF r] by (simp add: r process_short) (simp add: entry_of_def)
qed

text \<open>
  Claim C1. No two entries of the written file are to have the same lower-cased,
  stripped text. The script tests \<^verbatim>\<open>txt not in duplicated\<close> and never adds
  \<^verbatim>\<open>txt\<close> to the dictionary: two pages whose texts differ in case only are
  both written.
\<close>

theorem make_seed_jsonl_duplicates:
  "make_seed_jsonl [page_a, page_b] ''en'' ''site'' [] 4 True =
     Inr ([entry_of ''http://a.org/a'' ''Hello World'', entry_of ''http://a.org/b'' ''hello world''],
          ''lm_en_pseudocrawl_site.jsonl.gz'', ''lm_en_pseudocrawl_site'')
   \<and> lower (strip (entry_text (entry_of ''http://a.org/a'' ''Hello World'')))
     = lower (strip (entry_text (entry_of ''http://a.org/b'' ''hello world'')))"
  by (simp add: make_seed_jsonl_gzipped process_a process_b)
     (simp add: entry_of_def lower_def lower_char_def is_upper_def strip_def is_space_def)

text \<open>
  Claim C8. The written entries are to be a subsequence of the processed pages in
  which, among pages of equal normalized text, the first is the one written. The
  subsequence part is \<open>make_seed_jsonl_subseq\<close>; with the dictionary
  \<^verbatim>\<open>duplicated\<close> left empty, a later copy of a page is written again.
\<close>

theorem make_seed_jsonl_later_copy:
  "make_seed_jsonl [page_a, page_short, page_a] ''en'' ''site'' [] 4 True =
     Inr ([entry_of ''http://a.org/a'' ''Hello World'', entry_of ''http://a.org/a'' ''Hello World''],
          ''lm_en_pseudocrawl_site.jsonl.gz'', ''lm_en_pseudocrawl_site'')"
  by (simp add: make_seed_jsonl_gzipped process_a process_short) (simp add: entry_of_def)

section \<open>Schema resolution\<close>



text \<open>
  A description nested deeper than the free frames allow raises
  \<^verbatim>\<open>RecursionError\<close>, although it has no leaf at all.
\<close>

lemma convert_types_nest_deep:
  "frames < 2 * n + 2 \<Longrightarrow> convert_types datasets frames (nest n) = Inl RecursionError"
proof (induction n arbitrary: frames)
  case 0
  then show ?case by auto
next
  case (Suc n)
  show ?case
  proof (cases "frames < 2")
    case True
    then show ?thesis by auto
  next
    case False
    with Suc.prems have "frames - 2 < 2 * n + 2" by simp
    then have "convert_types datasets (frames - 2) (nest n) = Inl RecursionError"
      by (rule Suc.IH)
    with False show ?thesis by simp
  qed
qed




end
